theory Spec2Isabelle
  imports Main "HOL-Library.Word" "HOL-Library.Char_ord" "HOL-Library.List_Lexorder"
begin

section \<open>Library values used by the tracker\<close>

subsection \<open>Errors\<close>

text \<open>
  A Go \<open>error\<close> is \<open>nil\<close> or a value; \<open>error option\<close> with \<open>None\<close> for \<open>nil\<close>.
  \<open>Wrap\<close> is \<open>errors.Wrap\<close> of github.com/pkg/errors, whose first line is
  \<^verbatim>\<open>if err == nil { return nil }\<close>: it annotates an error and keeps \<open>nil\<close> as \<open>nil\<close>.
\<close>

datatype error = fundamental string | withMessage string error

definition Wrap :: "error option \<Rightarrow> string \<Rightarrow> error option" where
  "Wrap err message = (case err of None \<Rightarrow> None | Some e \<Rightarrow> Some (withMessage message e))"

subsection \<open>Big integers, time and timestamps\<close>

text \<open>
  \<open>Int64\<close> is \<open>(*big.Int).Int64\<close>: the low 64 bits of the magnitude, read as an
  \<open>int64\<close>, negated (with wrap-around) when the number is negative:
  \<^verbatim>\<open>v := int64(low64(x.abs)); if x.neg { v = -v }; return v\<close>.
\<close>

definition Int64 :: "int \<Rightarrow> 64 word" where
  "Int64 x = (let v = (word_of_int \<bar>x\<bar> :: 64 word) in if x < 0 then - v else v)"

text \<open>\<open>String\<close> is \<open>(*big.Int).String\<close>: the decimal representation.\<close>

function decimal :: "nat \<Rightarrow> string" where
  "decimal n = (if n < 10 then [char_of (48 + n)] else decimal (n div 10) @ [char_of (48 + n mod 10)])"
  by pat_completeness auto
termination
  by (relation "measure (\<lambda>n. n)") auto

declare decimal.simps [simp del]

definition String :: "int \<Rightarrow> string" where
  "String x = (if x < 0 then CHR ''-'' # decimal (nat (- x)) else decimal (nat x))"

text \<open>
  A \<open>time.Time\<close> is its number of nanoseconds since the Unix epoch, a \<open>time.Duration\<close>
  a number of nanoseconds. \<open>FromTime\<close> is \<open>timestamp.FromTime\<close> of Prometheus:
  \<^verbatim>\<open>t.Unix()*1000 + int64(t.Nanosecond())/int64(time.Millisecond)\<close>.
\<close>

definition Second :: int where
  "Second = 1000000000"

definition Minute :: int where
  "Minute = 60 * Second"

definition reorgEventWait :: int where
  "reorgEventWait = 3 * Minute"

definition FromTime :: "int \<Rightarrow> int" where
  "FromTime t = (t div 1000000000) * 1000 + (t mod 1000000000) div 1000000"

subsection \<open>Labels\<close>

text \<open>
  \<open>labels.Labels\<close> is a slice of name and value pairs whose \<open>Less\<close> compares the
  names; \<open>sort.Sort(lbls)\<close> orders the slice by it. Go strings compare bytewise, which
  is the lexicographic order on \<open>char list\<close>.
\<close>

record Label =
  Name :: string
  Value :: string

definition sortLabels :: "Label list \<Rightarrow> Label list" where
  "sortLabels lbls = sort_key Name lbls"

section \<open>The time-series store and the reference provider\<close>

text \<open>
  The store is an external collaborator with the interface \<open>Appender\<close>, \<open>Append\<close>,
  \<open>Commit\<close>, \<open>Rollback\<close>. An appender scope buffers the samples appended to it; a
  successful \<open>Commit\<close> makes them part of the store, \<open>Rollback\<close> and a failed \<open>Commit\<close>
  drop them. What the collaborators answer is the environment of one invocation:
  the clock readings, the result of each \<open>Append\<close> (numbered in call order), of
  \<open>GetValue\<close>, of \<open>Commit\<close> and of \<open>Rollback\<close>, and the conversion of an \<open>int64\<close>
  to the store's \<open>float64\<close> (type \<open>'f\<close>).
\<close>

record 'f Sample =
  seriesLabels :: "Label list"
  timestamp :: int
  sampleValue :: 'f

record 'f env =
  Now :: "nat \<Rightarrow> int"
  AppendErr :: "nat \<Rightarrow> error option"
  PsrValue :: "64 word \<Rightarrow> int \<Rightarrow> error + 'f"
  CommitErr :: "error option"
  RollbackErr :: "error option"
  float64 :: "64 word \<Rightarrow> 'f"

datatype 'f call =
    AppendCall "Label list" int 'f
  | GetValueCall "64 word" int
  | CommitCall
  | RollbackCall

record 'f txn =
  buffer :: "'f Sample list"
  calls :: "'f call list"

definition Appender :: "'f txn" where
  "Appender = \<lparr>buffer = [], calls = []\<rparr>"

definition Append :: "'f env \<Rightarrow> nat \<Rightarrow> 'f txn \<Rightarrow> Label list \<Rightarrow> int \<Rightarrow> 'f \<Rightarrow> error option \<times> 'f txn" where
  "Append env k a l t v =
     (case AppendErr env k of
        Some e \<Rightarrow> (Some e, a\<lparr>calls := calls a @ [AppendCall l t v]\<rparr>)
      | None \<Rightarrow>
          (None, a\<lparr>buffer := buffer a @ [\<lparr>seriesLabels = l, timestamp = t, sampleValue = v\<rparr>],
                    calls := calls a @ [AppendCall l t v]\<rparr>))"

definition GetValue :: "'f env \<Rightarrow> 'f txn \<Rightarrow> 64 word \<Rightarrow> int \<Rightarrow> (error + 'f) \<times> 'f txn" where
  "GetValue env a reqID t = (PsrValue env reqID t, a\<lparr>calls := calls a @ [GetValueCall reqID t]\<rparr>)"

definition Commit :: "'f env \<Rightarrow> 'f Sample list \<Rightarrow> 'f txn \<Rightarrow> error option \<times> 'f Sample list \<times> 'f txn" where
  "Commit env db a =
     (case CommitErr env of
        None \<Rightarrow> (None, db @ buffer a, a\<lparr>buffer := [], calls := calls a @ [CommitCall]\<rparr>)
      | Some e \<Rightarrow> (Some e, db, a\<lparr>buffer := [], calls := calls a @ [CommitCall]\<rparr>))"

definition Rollback :: "'f env \<Rightarrow> 'f Sample list \<Rightarrow> 'f txn \<Rightarrow> error option \<times> 'f Sample list \<times> 'f txn" where
  "Rollback env db a = (RollbackErr env, db, a\<lparr>buffer := [], calls := calls a @ [RollbackCall]\<rparr>)"

section \<open>Events and the transactional append\<close>

text \<open>
  A \<open>TellorNonceSubmitted\<close> event. \<open>RequestId\<close> and \<open>Value\<close> are parallel arrays of the
  same fixed length in the contract binding; \<open>Obs\<close> is the list of the pairs
  \<open>(RequestId[i], Value[i])\<close>. \<open>TxHash\<close> and \<open>Miner\<close> are the strings that
  \<open>event.Raw.TxHash.String()\<close> and \<open>event.Miner.String()\<close> give.
\<close>

record event =
  Removed :: bool
  TxHash :: string
  Miner :: string
  Obs :: "(int \<times> int) list"

definition oracleLabels :: "event \<Rightarrow> int \<Rightarrow> Label list" where
  "oracleLabels ev reqId =
     [\<lparr>Name = ''__name__'', Value = ''oracle_value''\<rparr>,
      \<lparr>Name = ''contract'', Value = ''tellor''\<rparr>,
      \<lparr>Name = ''id'', Value = String reqId\<rparr>,
      \<lparr>Name = ''miner'', Value = Miner ev\<rparr>]"

definition psrLabels :: "int \<Rightarrow> Label list" where
  "psrLabels reqId =
     [\<lparr>Name = ''__name__'', Value = ''psr_value''\<rparr>,
      \<lparr>Name = ''contract'', Value = ''tellor''\<rparr>,
      \<lparr>Name = ''id'', Value = String reqId\<rparr>]"

text \<open>
  One iteration of the loop of \<open>addValTellor\<close>, for the observation of index \<open>i\<close>:
  the result is the error it returns with (\<open>None\<close> when the loop goes on).
\<close>

definition loopBody :: "'f env \<Rightarrow> event \<Rightarrow> nat \<Rightarrow> int \<times> int \<Rightarrow> 'f txn \<Rightarrow> error option \<times> 'f txn" where
  "loopBody env ev i ob a =
     (let reqId = fst ob; valAct = snd ob;
          ts = FromTime (Now env (2 * i));
          lbls = sortLabels (oracleLabels ev reqId);
          (err, a1) = Append env (2 * i) a lbls ts (float64 env (Int64 valAct))
      in if err \<noteq> None then (Wrap err ''append values to the DB'', a1)
         else
           (case GetValue env a1 (Int64 reqId) (Now env (2 * i + 1) - reorgEventWait) of
              (Inl e, a2) \<Rightarrow>
                (Wrap (Some e) (''getting value from the PSR id:'' @ String (sint (Int64 reqId))), a2)
            | (Inr valExp, a2) \<Rightarrow>
                (let lbls = sortLabels (psrLabels reqId);
                     (err, a3) = Append env (2 * i + 1) a2 lbls ts valExp
                 in if err \<noteq> None then (Wrap err ''append values to the DB'', a3)
                    else (None, a3))))"

fun rangeValue :: "'f env \<Rightarrow> event \<Rightarrow> nat \<Rightarrow> (int \<times> int) list \<Rightarrow> 'f txn \<Rightarrow> error option \<times> 'f txn" where
  "rangeValue env ev i [] a = (None, a)"
| "rangeValue env ev i (ob # rest) a =
     (case loopBody env ev i ob a of
        (Some e, a') \<Rightarrow> (Some e, a')
      | (None, a') \<Rightarrow> rangeValue env ev (Suc i) rest a')"

text \<open>
  The deferred function of \<open>addValTellor\<close>, run on every return with the named result
  \<open>err\<close>: roll back when it is set, commit otherwise. The messages it logs are
  returned with the result. The message that \<open>addValTellor\<close> logs at the level Debug
  after each observation is left out.
\<close>

definition deferred :: "'f env \<Rightarrow> 'f Sample list \<Rightarrow> error option \<Rightarrow> 'f txn
    \<Rightarrow> error option \<times> 'f Sample list \<times> 'f txn \<times> string list" where
  "deferred env db err a =
     (if err \<noteq> None then
        (case Rollback env db a of
           (errR, db', a') \<Rightarrow>
             (err, db', a', if errR \<noteq> None then [''db rollback failed''] else []))
      else
        (case Commit env db a of
           (errC, db', a') \<Rightarrow>
             (if errC \<noteq> None then (Wrap err ''db append commit failed'', db', a', [])
              else (err, db', a', []))))"

definition addValTellor :: "'f env \<Rightarrow> 'f Sample list \<Rightarrow> event
    \<Rightarrow> error option \<times> 'f Sample list \<times> 'f txn \<times> string list" where
  "addValTellor env db ev =
     (case rangeValue env ev 0 (Obs ev) Appender of
        (err, a) \<Rightarrow> deferred env db err a)"

text \<open>
  What the loop does is fixed by the answers of the collaborators. \<open>obsOk\<close> says that
  every step for the observation of index \<open>i\<close> succeeds, \<open>stepsOk\<close> that every step of
  every observation does; \<open>obsSamples\<close> and \<open>eventSamples\<close> are the samples the
  specification asks for: per observation the observed value, then the reference
  value, at the timestamp read first.
\<close>

fun isResolution :: "'f call \<Rightarrow> bool" where
  "isResolution CommitCall = True"
| "isResolution RollbackCall = True"
| "isResolution (AppendCall l t v) = False"
| "isResolution (GetValueCall r t) = False"

definition psrTime :: "'f env \<Rightarrow> nat \<Rightarrow> int" where
  "psrTime env i = Now env (2 * i + 1) - reorgEventWait"

definition obsOk :: "'f env \<Rightarrow> nat \<Rightarrow> int \<times> int \<Rightarrow> bool" where
  "obsOk env i ob =
     (AppendErr env (2 * i) = None \<and> \<not> isl (PsrValue env (Int64 (fst ob)) (psrTime env i))
      \<and> AppendErr env (2 * i + 1) = None)"

fun stepsOk :: "'f env \<Rightarrow> nat \<Rightarrow> (int \<times> int) list \<Rightarrow> bool" where
  "stepsOk env i [] = True"
| "stepsOk env i (ob # rest) = (obsOk env i ob \<and> stepsOk env (Suc i) rest)"

definition obsSamples :: "'f env \<Rightarrow> event \<Rightarrow> nat \<Rightarrow> int \<times> int \<Rightarrow> 'f Sample list" where
  "obsSamples env ev i ob =
     [\<lparr>seriesLabels = oracleLabels ev (fst ob), timestamp = FromTime (Now env (2 * i)),
        sampleValue = float64 env (Int64 (snd ob))\<rparr>,
      \<lparr>seriesLabels = psrLabels (fst ob), timestamp = FromTime (Now env (2 * i)),
        sampleValue = projr (PsrValue env (Int64 (fst ob)) (psrTime env i))\<rparr>]"

fun eventSamples :: "'f env \<Rightarrow> event \<Rightarrow> nat \<Rightarrow> (int \<times> int) list \<Rightarrow> 'f Sample list" where
  "eventSamples env ev i [] = []"
| "eventSamples env ev i (ob # rest) = obsSamples env ev i ob @ eventSamples env ev (Suc i) rest"

text \<open>
  The calls one iteration makes, and the calls the whole loop makes: an iteration
  stops at its first failing step, the loop at its first failing iteration.
\<close>

definition obsCalls :: "'f env \<Rightarrow> event \<Rightarrow> nat \<Rightarrow> int \<times> int \<Rightarrow> 'f call list" where
  "obsCalls env ev i ob =
     AppendCall (oracleLabels ev (fst ob)) (FromTime (Now env (2 * i))) (float64 env (Int64 (snd ob))) #
     (if AppendErr env (2 * i) \<noteq> None then []
      else GetValueCall (Int64 (fst ob)) (psrTime env i) #
        (case PsrValue env (Int64 (fst ob)) (psrTime env i) of
           Inl e \<Rightarrow> []
         | Inr valExp \<Rightarrow> [AppendCall (psrLabels (fst ob)) (FromTime (Now env (2 * i))) valExp]))"

fun eventCalls :: "'f env \<Rightarrow> event \<Rightarrow> nat \<Rightarrow> (int \<times> int) list \<Rightarrow> 'f call list" where
  "eventCalls env ev i [] = []"
| "eventCalls env ev i (ob # rest) =
     obsCalls env ev i ob @ (if obsOk env i ob then eventCalls env ev (Suc i) rest else [])"

text \<open>
  An environment in which every step succeeds and an event with two observations,
  for the examples.
\<close>

definition exampleEnv :: "int env" where
  "exampleEnv = \<lparr>Now = (\<lambda>k. 1700000000000000000 + 1000000 * int k), AppendErr = (\<lambda>k. None),
     PsrValue = (\<lambda>reqID t. Inr 41), CommitErr = None, RollbackErr = None, float64 = sint\<rparr>"

definition exampleEvent :: event where
  "exampleEvent = \<lparr>Removed = False, TxHash = ''0xabc'', Miner = ''0xminer'', Obs = [(1, 42), (2, 43)]\<rparr>"

section \<open>The mining loop\<close>

text \<open>
  \<open>Int63\<close> is \<open>rand.Int63\<close>: the next value of the random source, masked to 63 bits.
  The source is the stream of the values it will give and the position reached.
  \<open>MaxInt64\<close> is \<open>math.MaxInt64\<close>.
\<close>

record rng =
  stream :: "nat \<Rightarrow> 64 word"
  drawn :: nat

definition Int63 :: "rng \<Rightarrow> 64 word \<times> rng" where
  "Int63 g = (take_bit 63 (stream g (drawn g)), g\<lparr>drawn := Suc (drawn g)\<rparr>)"

definition MaxInt64 :: "64 word" where
  "MaxInt64 = 9223372036854775807"

record 'c Work =
  Challenge :: 'c
  Start :: "64 word"
  N :: "64 word"

record 'c Result =
  Work :: "'c Work"
  Nonce :: string

text \<open>
  The state of the goroutine of \<open>MiningMgr.Start\<close>, once the configuration is read:
  the values sent on \<open>input\<close> so far (\<open>None\<close> is \<open>nil\<close>; the pool receives every
  value sent), the calls of \<open>solHandler.HandleSolution\<close> so far, the random source,
  and whether the goroutine has returned.
\<close>

record 'c MiningMgr =
  Running :: bool
  input :: "'c Work option list"
  handled :: "('c \<times> string) list"
  rand :: rng
  returned :: bool

text \<open>\<open>sendWork\<close>, given what \<open>mgr.tasker.PullUpdates()\<close> answers.\<close>

definition sendWork :: "'c MiningMgr \<Rightarrow> 'c option \<Rightarrow> 'c MiningMgr" where
  "sendWork mgr challenge =
     (case challenge of
        None \<Rightarrow> mgr
      | Some c \<Rightarrow>
          (case Int63 (rand mgr) of
             (r, g) \<Rightarrow>
               mgr\<lparr>input := input mgr @ [Some \<lparr>Challenge = c, Start = r, N = MaxInt64\<rparr>],
                    rand := g\<rparr>))"

text \<open>
  The case a \<open>select\<close> of the loop takes: the exit channel, a result of the pool
  (\<open>None\<close> is \<open>nil\<close>), or the ticker, with the answer of \<open>PullUpdates\<close> at that tick.
\<close>

datatype 'c selected = fromExitCh | fromOutput "'c Result option" | fromTicker "'c option"

definition loopStep :: "'c MiningMgr \<Rightarrow> 'c selected \<Rightarrow> 'c MiningMgr" where
  "loopStep mgr sel =
     (if returned mgr then mgr
      else
        (case sel of
           fromExitCh \<Rightarrow> mgr\<lparr>input := input mgr @ [None]\<rparr>
         | fromOutput result \<Rightarrow>
             (case result of
                None \<Rightarrow> mgr\<lparr>Running := False, returned := True\<rparr>
              | Some r \<Rightarrow> mgr\<lparr>handled := handled mgr @ [(Challenge (Work r), Nonce r)]\<rparr>)
         | fromTicker challenge \<Rightarrow> sendWork mgr challenge))"

text \<open>
  \<open>MiningMgr.Start\<close> on a manager as \<open>CreateMiningManager\<close> makes it: the initial
  \<open>sendWork\<close>, then the loop over the cases its selects take.
\<close>

definition CreateMiningManager :: "rng \<Rightarrow> 'c MiningMgr" where
  "CreateMiningManager g = \<lparr>Running = False, input = [], handled = [], rand = g, returned = False\<rparr>"

definition MiningMgr_Start :: "'c MiningMgr \<Rightarrow> 'c option \<Rightarrow> 'c selected list \<Rightarrow> 'c MiningMgr" where
  "MiningMgr_Start mgr challenge sels = foldl loopStep (sendWork mgr challenge) sels"

text \<open>
  The solutions among the cases taken, up to the first \<open>nil\<close> result: what the loop
  is to hand to the solution handler.
\<close>

fun solutions :: "'c selected list \<Rightarrow> ('c \<times> string) list" where
  "solutions [] = []"
| "solutions (fromOutput None # sels) = []"
| "solutions (fromOutput (Some r) # sels) = (Challenge (Work r), Nonce r) # solutions sels"
| "solutions (fromExitCh # sels) = solutions sels"
| "solutions (fromTicker challenge # sels) = solutions sels"

section \<open>The dispute tracker\<close>

text \<open>
  Where the goroutine of \<open>Dispute.Start\<close> stands: in the loop of the initial
  subscription, in the \<open>select\<close> of the main loop, in the loop that subscribes again,
  or returned. Where a delayed-commit goroutine stands: in its \<open>select\<close>, after
  \<open>addValTellor\<close> and before \<open>removePending\<close>, returned after \<open>removePending\<close>, or
  returned from the case \<open>ctx.Done()\<close>.
\<close>

datatype phase = Subscribing | Active | Resubscribing | Returned

datatype point = Waiting | Appended | Finished | Canceled

record task =
  taskEvent :: event
  ctxDone :: bool
  pc :: point

text \<open>
  The tracker. A cancel function in \<open>pendingAppend\<close> is the index of the goroutine
  whose context it cancels. \<open>closed\<close>: \<open>self.ctx\<close> is cancelled. \<open>appends\<close> lists the
  invocations of \<open>addValTellor\<close> with the goroutine that made each and the calls it
  made; \<open>logged\<close> the messages logged at the levels Error and Info (those at the
  level Debug are left out); \<open>waits\<close> has, for every receive of \<open>Start\<close> from its
  ticker, the period of that ticker.
\<close>

record 'f Dispute =
  phase :: phase
  closed :: bool
  pendingAppend :: "string \<rightharpoonup> nat"
  tasks :: "task list"
  tsDB :: "'f Sample list"
  appends :: "(nat \<times> 'f call list) list"
  logged :: "string list"
  waits :: "int list"

definition New :: "'f Sample list \<Rightarrow> 'f Dispute" where
  "New db = \<lparr>phase = Subscribing, closed = False, pendingAppend = Map.empty, tasks = [],
     tsDB = db, appends = [], logged = [], waits = []\<rparr>"

definition cancel :: "nat \<Rightarrow> task list \<Rightarrow> task list" where
  "cancel i ts = (if i < length ts then ts[i := (ts ! i)\<lparr>ctxDone := True\<rparr>] else ts)"

definition setPc :: "nat \<Rightarrow> point \<Rightarrow> task list \<Rightarrow> task list" where
  "setPc i p ts = (if i < length ts then ts[i := (ts ! i)\<lparr>pc := p\<rparr>] else ts)"

definition removePending :: "'f Dispute \<Rightarrow> event \<Rightarrow> 'f Dispute" where
  "removePending self ev =
     (case pendingAppend self (TxHash ev) of
        None \<Rightarrow> self\<lparr>logged := logged self @ [''missing pending TX for removed event'']\<rparr>
      | Some pendingCncl \<Rightarrow>
          self\<lparr>tasks := cancel pendingCncl (tasks self),
               pendingAppend := (pendingAppend self)(TxHash ev := None)\<rparr>)"

text \<open>
  The case \<open>event := <-events\<close> of the main loop: \<open>removePending\<close> for a removed
  event, then, for every event, a new cancel function under the event's key and
  a new goroutine.
\<close>

definition onEvent :: "'f Dispute \<Rightarrow> event \<Rightarrow> 'f Dispute" where
  "onEvent self ev =
     (let self1 = (if Removed ev then removePending self ev else self);
          cncl = length (tasks self1)
      in self1\<lparr>pendingAppend := (pendingAppend self1)(TxHash ev \<mapsto> cncl),
                tasks := tasks self1 @ [\<lparr>taskEvent = ev, ctxDone = False, pc = Waiting\<rparr>]\<rparr>)"

text \<open>
  What can happen next. \<open>Stop\<close>: \<open>self.close()\<close>. \<open>CtxDone\<close>: \<open>Start\<close> finds
  \<open>self.ctx.Done()\<close> ready and returns. \<open>SubscribeFailed\<close>, \<open>Subscribed\<close>: one turn of
  a subscribing loop, \<open>self.ctx\<close> not done at its check, \<open>newSubTellor\<close> failing
  (then the message and one receive from the ticker) or succeeding. \<open>SubErr\<close>:
  the main loop receives from \<open>sub.Err()\<close>. \<open>Event\<close>: it receives an event.
  \<open>TickerC i env\<close>: goroutine \<open>i\<close> takes the case of its ticker and runs
  \<open>addValTellor\<close> in the environment \<open>env\<close>; a goroutine whose context is done before
  its ticker fires has been woken by that and cannot take this case.
  \<open>RemovePending i\<close>: goroutine \<open>i\<close> goes on to \<open>removePending\<close>.
  \<open>TaskCtxDone i\<close>: goroutine \<open>i\<close> takes the case \<open>ctx.Done()\<close>.
  \<open>step\<close> is \<open>None\<close> where the occurrence is not possible in the state.
\<close>

datatype 'f occurrence =
    Stop
  | CtxDone
  | SubscribeFailed
  | Subscribed
  | SubErr "error option"
  | Event event
  | TickerC nat "'f env"
  | RemovePending nat
  | TaskCtxDone nat

definition taskDone :: "'f Dispute \<Rightarrow> nat \<Rightarrow> bool" where
  "taskDone self i = (closed self \<or> ctxDone (tasks self ! i))"

fun step :: "'f Dispute \<Rightarrow> 'f occurrence \<Rightarrow> 'f Dispute option" where
  "step self Stop = Some (self\<lparr>closed := True\<rparr>)"
| "step self CtxDone =
     (if closed self \<and> phase self \<noteq> Returned then Some (self\<lparr>phase := Returned\<rparr>) else None)"
| "step self SubscribeFailed =
     (if closed self then None
      else if phase self = Subscribing then
        Some (self\<lparr>logged := logged self @ [''initial subscribing to events failed''],
                   waits := waits self @ [Second]\<rparr>)
      else if phase self = Resubscribing then
        Some (self\<lparr>logged := logged self @ [''re-subscribing to events failed''],
                   waits := waits self @ [Second]\<rparr>)
      else None)"
| "step self Subscribed =
     (if closed self then None
      else if phase self = Subscribing then Some (self\<lparr>phase := Active\<rparr>)
      else if phase self = Resubscribing then
        Some (self\<lparr>phase := Active, logged := logged self @ [''re-subscribed to events'']\<rparr>)
      else None)"
| "step self (SubErr err) =
     (if phase self = Active then
        Some (self\<lparr>phase := Resubscribing,
                   logged := logged self @ (if err \<noteq> None then [''subscription error''] else [])\<rparr>)
      else None)"
| "step self (Event ev) = (if phase self = Active then Some (onEvent self ev) else None)"
| "step self (TickerC i env) =
     (if i < length (tasks self) \<and> pc (tasks self ! i) = Waiting \<and> \<not> taskDone self i then
        (case addValTellor env (tsDB self) (taskEvent (tasks self ! i)) of
           (err, db', a, logs) \<Rightarrow>
             Some (self\<lparr>tsDB := db',
                        appends := appends self @ [(i, calls a)],
                        logged := logged self @ logs @ (if err \<noteq> None then [''adding value''] else []),
                        tasks := setPc i Appended (tasks self)\<rparr>))
      else None)"
| "step self (RemovePending i) =
     (if i < length (tasks self) \<and> pc (tasks self ! i) = Appended then
        (let self1 = removePending self (taskEvent (tasks self ! i))
         in Some (self1\<lparr>tasks := setPc i Finished (tasks self1)\<rparr>))
      else None)"
| "step self (TaskCtxDone i) =
     (if i < length (tasks self) \<and> pc (tasks self ! i) = Waiting \<and> taskDone self i then
        Some (self\<lparr>tasks := setPc i Canceled (tasks self)\<rparr>)
      else None)"

fun run :: "'f Dispute \<Rightarrow> 'f occurrence list \<Rightarrow> 'f Dispute option" where
  "run self [] = Some self"
| "run self (x # xs) = (case step self x of None \<Rightarrow> None | Some self' \<Rightarrow> run self' xs)"

text \<open>
  The transactions goroutine \<open>i\<close> has made, and those made for the key \<open>k\<close>.
\<close>

definition appendsOf :: "'f Dispute \<Rightarrow> nat \<Rightarrow> (nat \<times> 'f call list) list" where
  "appendsOf self i = filter (\<lambda>p. fst p = i) (appends self)"

definition appendsFor :: "'f Dispute \<Rightarrow> string \<Rightarrow> (nat \<times> 'f call list) list" where
  "appendsFor self k = filter (\<lambda>p. TxHash (taskEvent (tasks self ! fst p)) = k) (appends self)"

text \<open>
  What holds in every state the tracker reaches: a cancel function in the map is
  that of a goroutine started for that key; a goroutine has made one transaction
  when it is past its \<open>select\<close> by the case of its ticker and none otherwise; every
  transaction is that of a goroutine started.
\<close>

definition consistent :: "'f Dispute \<Rightarrow> bool" where
  "consistent self =
     ((\<forall>k i. pendingAppend self k = Some i \<longrightarrow>
          i < length (tasks self) \<and> TxHash (taskEvent (tasks self ! i)) = k)
      \<and> (\<forall>i < length (tasks self).
           length (appendsOf self i) =
             (if pc (tasks self ! i) = Appended \<or> pc (tasks self ! i) = Finished then 1 else 0))
      \<and> (\<forall>p \<in> set (appends self). fst p < length (tasks self)))"




text \<open>A manager with a random source, for the examples.\<close>

definition exampleMgr :: "string MiningMgr" where
  "exampleMgr = CreateMiningManager \<lparr>stream = (\<lambda>k. 100 + of_nat k), drawn = 0\<rparr>"

section \<open>The transactional append: properties\<close>

lemma Int64_word_of_int: "Int64 x = word_of_int x"
  by (simp add: Int64_def Let_def abs_if)

lemma sint_Int64_in_range: "(sint (Int64 x) = x) = (- (2 ^ 63) \<le> x \<and> x < 2 ^ 63)"
  by (simp add: Int64_word_of_int sint_sbintrunc' signed_take_bit_int_eq_self_iff)

lemma sortLabels_oracleLabels: "sortLabels (oracleLabels ev r) = oracleLabels ev r"
  by (simp add: sortLabels_def oracleLabels_def)

lemma sortLabels_psrLabels: "sortLabels (psrLabels r) = psrLabels r"
  by (simp add: sortLabels_def psrLabels_def)

lemma loopBody_calls: "calls (snd (loopBody env ev i ob a)) = calls a @ obsCalls env ev i ob"
  by (auto simp: loopBody_def obsCalls_def Append_def GetValue_def psrTime_def Let_def
      sortLabels_oracleLabels sortLabels_psrLabels split: option.splits sum.splits prod.splits)

lemma loopBody_ok:
  "obsOk env i ob \<Longrightarrow>
    loopBody env ev i ob a = (None, a\<lparr>buffer := buffer a @ obsSamples env ev i ob, calls := calls a @ obsCalls env ev i ob\<rparr>)"
  by (cases "PsrValue env (Int64 (fst ob)) (psrTime env i)")
     (auto simp: loopBody_def obsCalls_def obsOk_def obsSamples_def Append_def GetValue_def psrTime_def Let_def
      sortLabels_oracleLabels sortLabels_psrLabels split: option.splits sum.splits prod.splits)

lemma loopBody_fail:
  "\<not> obsOk env i ob \<Longrightarrow> fst (loopBody env ev i ob a) \<noteq> None"
  by (cases "PsrValue env (Int64 (fst ob)) (psrTime env i)")
     (auto simp: loopBody_def obsOk_def Append_def GetValue_def psrTime_def Let_def Wrap_def
       split: option.splits sum.splits prod.splits)

lemma loopBody_None_iff: "(fst (loopBody env ev i ob a) = None) = obsOk env i ob"
proof (cases "obsOk env i ob")
  case True
  then show ?thesis by (simp add: loopBody_ok)
next
  case False
  then show ?thesis using loopBody_fail [of env i ob ev a] by simp
qed

lemma obsCalls_no_resolution: "filter isResolution (obsCalls env ev i ob) = []"
  by (auto simp: obsCalls_def split: sum.splits)

lemma rangeValue_calls: "calls (snd (rangeValue env ev i obs a)) = calls a @ eventCalls env ev i obs"
proof (induction obs arbitrary: i a)
  case Nil
  then show ?case by simp
next
  case (Cons ob rest)
  show ?case
  proof (cases "obsOk env i ob")
    case True
    then show ?thesis using Cons.IH by (simp add: loopBody_ok)
  next
    case False
    then obtain e a' where l: "loopBody env ev i ob a = (Some e, a')"
      using loopBody_fail [of env i ob ev a] by (cases "loopBody env ev i ob a") auto
    then have "calls a' = calls a @ obsCalls env ev i ob"
      using loopBody_calls [of env ev i ob a] by simp
    then show ?thesis using l False by simp
  qed
qed

lemma eventCalls_no_resolution: "filter isResolution (eventCalls env ev i obs) = []"
  by (induction obs arbitrary: i) (auto simp: obsCalls_no_resolution)

lemma rangeValue_None_iff: "(fst (rangeValue env ev i obs a) = None) = stepsOk env i obs"
proof (induction obs arbitrary: i a)
  case Nil
  then show ?case by simp
next
  case (Cons ob rest)
  show ?case
  proof (cases "obsOk env i ob")
    case True
    then show ?thesis using Cons.IH by (simp add: loopBody_ok)
  next
    case False
    then obtain e a' where l: "loopBody env ev i ob a = (Some e, a')"
      using loopBody_fail [of env i ob ev a] by (cases "loopBody env ev i ob a") auto
    then show ?thesis using False by simp
  qed
qed

lemma rangeValue_ok:
  "stepsOk env i obs \<Longrightarrow>
     rangeValue env ev i obs a =
       (None, a\<lparr>buffer := buffer a @ eventSamples env ev i obs, calls := calls a @ eventCalls env ev i obs\<rparr>)"
proof (induction obs arbitrary: i a)
  case Nil
  then show ?case by simp
next
  case (Cons ob rest)
  then show ?case by (simp add: loopBody_ok)
qed

lemma rangeValue_abandons:
  "\<not> stepsOk env i xs \<Longrightarrow> rangeValue env ev i (xs @ ys) a = rangeValue env ev i xs a"
proof (induction xs arbitrary: i a)
  case Nil
  then show ?case by simp
next
  case (Cons ob rest)
  show ?case
  proof (cases "obsOk env i ob")
    case True
    then show ?thesis using Cons by (simp add: loopBody_ok)
  next
    case False
    then obtain e a' where l: "loopBody env ev i ob a = (Some e, a')"
      using loopBody_fail [of env i ob ev a] by (cases "loopBody env ev i ob a") auto
    then show ?thesis by simp
  qed
qed


lemma loopBody_event_cong: "Miner ev' = Miner ev \<Longrightarrow> loopBody env ev' i ob a = loopBody env ev i ob a"
  by (simp add: loopBody_def oracleLabels_def)

lemma rangeValue_event_cong:
  "Miner ev' = Miner ev \<Longrightarrow> rangeValue env ev' i obs a = rangeValue env ev i obs a"
proof (induction obs arbitrary: i a)
  case Nil
  then show ?case by simp
next
  case (Cons ob rest)
  have "loopBody env ev' i ob a = loopBody env ev i ob a"
    using Cons.prems by (rule loopBody_event_cong)
  then show ?case using Cons by (simp split: prod.splits option.splits)
qed

lemma addValTellor_ok:
  "stepsOk env 0 (Obs ev) \<Longrightarrow>
     addValTellor env db ev =
       (None, (if CommitErr env = None then db @ eventSamples env ev 0 (Obs ev) else db),
        \<lparr>buffer = [], calls = eventCalls env ev 0 (Obs ev) @ [CommitCall]\<rparr>, [])"
  by (simp add: addValTellor_def rangeValue_ok deferred_def Commit_def Appender_def Wrap_def
      split: option.splits)

lemma addValTellor_fail:
  assumes "\<not> stepsOk env 0 (Obs ev)"
  shows "\<exists>e. addValTellor env db ev =
       (Some e, db, \<lparr>buffer = [], calls = eventCalls env ev 0 (Obs ev) @ [RollbackCall]\<rparr>,
        if RollbackErr env \<noteq> None then [''db rollback failed''] else [])"
proof -
  obtain err a where r: "rangeValue env ev 0 (Obs ev) Appender = (err, a)"
    by (cases "rangeValue env ev 0 (Obs ev) (Appender :: 'a txn)") auto
  have "err \<noteq> None"
    using assms rangeValue_None_iff [of env ev 0 "Obs ev" Appender] r by simp
  then obtain e where e: "err = Some e" by auto
  have c: "calls a = eventCalls env ev 0 (Obs ev)"
    using rangeValue_calls [of env ev 0 "Obs ev" Appender] r by (simp add: Appender_def)
  show ?thesis
    using r e c by (simp add: addValTellor_def deferred_def Rollback_def)
qed

lemma addValTellor_abandons:
  assumes "\<not> stepsOk env 0 (Obs ev)"
  shows "addValTellor env db (ev\<lparr>Obs := Obs ev @ ys\<rparr>) = addValTellor env db ev"
proof -
  have "rangeValue env (ev\<lparr>Obs := Obs ev @ ys\<rparr>) 0 (Obs ev @ ys) Appender
      = rangeValue env (ev\<lparr>Obs := Obs ev @ ys\<rparr>) 0 (Obs ev) Appender"
    using assms by (rule rangeValue_abandons)
  moreover have "rangeValue env (ev\<lparr>Obs := Obs ev @ ys\<rparr>) 0 (Obs ev) Appender
      = rangeValue env ev 0 (Obs ev) Appender"
    by (rule rangeValue_event_cong) simp
  ultimately show ?thesis by (simp add: addValTellor_def)
qed

lemma sorted_by_name_unique:
  assumes "distinct (map Name xs)" and "set xs = set ys" and "distinct (map Name ys)"
    and "sorted (map Name xs)" and "sorted (map Name ys)"
  shows "xs = ys"
proof -
  have "set (map Name xs) = set (map Name ys)" using assms(2) by simp
  then have m: "map Name xs = map Name ys"
    using assms by (intro sorted_distinct_set_unique) auto
  have "inj_on Name (set xs)" using assms(1) by (simp add: distinct_map)
  then have "inj_on Name (set xs \<union> set ys)" using assms(2) by simp
  then show ?thesis using m by (simp add: inj_on_map_eq_map)
qed

text \<open>
  C3. Every invocation of \<open>addValTellor\<close> resolves its appender scope exactly once,
  as its last call: with \<open>Commit\<close> when every step of every observation succeeds,
  with \<open>Rollback\<close> otherwise. When a step fails the invocation returns an error, the
  store is as before, nothing stays in the scope, and the observations after the
  failing one are not looked at: more observations after them change nothing.
\<close>

theorem addValTellor_resolves_scope_once:
  assumes "addValTellor env db ev = (err, db', a, logs)"
  shows "calls a = eventCalls env ev 0 (Obs ev) @ [if stepsOk env 0 (Obs ev) then CommitCall else RollbackCall]
    \<and> filter isResolution (calls a) = [if stepsOk env 0 (Obs ev) then CommitCall else RollbackCall]
    \<and> (\<not> stepsOk env 0 (Obs ev) \<longrightarrow>
          err \<noteq> None \<and> db' = db \<and> buffer a = []
          \<and> (\<forall>ys. addValTellor env db (ev\<lparr>Obs := Obs ev @ ys\<rparr>) = (err, db', a, logs)))"
proof (cases "stepsOk env 0 (Obs ev)")
  case True
  then show ?thesis
    using assms by (auto simp: addValTellor_ok eventCalls_no_resolution)
next
  case False
  then obtain e where "addValTellor env db ev =
       (Some e, db, \<lparr>buffer = [], calls = eventCalls env ev 0 (Obs ev) @ [RollbackCall]\<rparr>,
        if RollbackErr env \<noteq> None then [''db rollback failed''] else [])"
    using addValTellor_fail [of env ev db] by blast
  then show ?thesis
    using assms False by (auto simp: addValTellor_abandons eventCalls_no_resolution)
qed

theorem addValTellor_resolves_scope_once_witness:
  "\<exists>err db' a logs.
     addValTellor (exampleEnv\<lparr>AppendErr := (\<lambda>k. if k = 3 then Some (fundamental ''out of order'') else None)\<rparr>)
       [] exampleEvent = (err, db', a, logs)
     \<and> \<not> stepsOk (exampleEnv\<lparr>AppendErr := (\<lambda>k. if k = 3 then Some (fundamental ''out of order'') else None)\<rparr>)
          0 (Obs exampleEvent)
     \<and> filter isResolution (calls a) = [RollbackCall]
     \<and> err \<noteq> None \<and> db' = [] \<and> buffer a = []"
proof -
  let ?env = "exampleEnv\<lparr>AppendErr := (\<lambda>k. if k = 3 then Some (fundamental ''out of order'') else None)\<rparr>"
  obtain err db' a logs where r: "addValTellor ?env [] exampleEvent = (err, db' :: int Sample list, a, logs)"
    by (cases "addValTellor ?env ([] :: int Sample list) exampleEvent") auto
  have n: "\<not> stepsOk ?env 0 (Obs exampleEvent)"
    by code_simp
  show ?thesis
    using addValTellor_resolves_scope_once [OF r] n r by auto
qed

text \<open>
  C4. The code at an event whose appends all succeed and whose \<open>Commit\<close> fails:
  \<open>addValTellor\<close> returns \<open>nil\<close>, since the deferred function wraps the named result,
  which is \<open>nil\<close> there, and not the error of \<open>Commit\<close>. The caller logs nothing, and
  the store holds none of the samples.
\<close>

theorem commit_failure_is_not_reported:
  "stepsOk (exampleEnv\<lparr>CommitErr := Some (fundamental ''write to WAL'')\<rparr>) 0 (Obs exampleEvent)
   \<and> addValTellor (exampleEnv\<lparr>CommitErr := Some (fundamental ''write to WAL'')\<rparr>) [] exampleEvent
       = (None, [],
          \<lparr>buffer = [],
             calls = eventCalls (exampleEnv\<lparr>CommitErr := Some (fundamental ''write to WAL'')\<rparr>) exampleEvent 0
                       (Obs exampleEvent) @ [CommitCall]\<rparr>,
          [])
   \<and> map_option logged
        (run (New []) [Subscribed, Event exampleEvent,
           TickerC 0 (exampleEnv\<lparr>CommitErr := Some (fundamental ''write to WAL'')\<rparr>), RemovePending 0]) = Some []
   \<and> map_option tsDB
        (run (New []) [Subscribed, Event exampleEvent,
           TickerC 0 (exampleEnv\<lparr>CommitErr := Some (fundamental ''write to WAL'')\<rparr>), RemovePending 0]) = Some []"
  by code_simp

text \<open>
  C9. Two label lists with the same pairs, each name once, in any two orders, are
  sorted to the same list, which is what \<open>Append\<close> receives; sorting a sorted list
  changes nothing.
\<close>

theorem sortLabels_canonical:
  assumes "distinct (map Name xs)" and "distinct (map Name ys)" and "set xs = set ys"
  shows "sortLabels xs = sortLabels ys
    \<and> sortLabels (sortLabels xs) = sortLabels xs
    \<and> (sorted (map Name xs) \<longrightarrow> sortLabels xs = xs)"
proof -
  have "sortLabels xs = sortLabels ys"
  proof (rule sorted_by_name_unique)
    show "distinct (map Name (sortLabels xs))"
      using assms(1) by (simp add: sortLabels_def distinct_map)
    show "distinct (map Name (sortLabels ys))"
      using assms(2) by (simp add: sortLabels_def distinct_map)
    show "set (sortLabels xs) = set (sortLabels ys)" using assms(3) by (simp add: sortLabels_def)
    show "sorted (map Name (sortLabels xs))" by (simp add: sortLabels_def)
    show "sorted (map Name (sortLabels ys))" by (simp add: sortLabels_def)
  qed
  moreover have "sortLabels (sortLabels xs) = sortLabels xs"
    by (simp add: sortLabels_def sort_key_id_if_sorted)
  moreover have "sorted (map Name xs) \<longrightarrow> sortLabels xs = xs"
    by (simp add: sortLabels_def sort_key_id_if_sorted)
  ultimately show ?thesis by simp
qed

theorem sortLabels_canonical_witness:
  "distinct (map Name (rev (oracleLabels exampleEvent 1)))
   \<and> distinct (map Name (oracleLabels exampleEvent 1))
   \<and> set (rev (oracleLabels exampleEvent 1)) = set (oracleLabels exampleEvent 1)
   \<and> rev (oracleLabels exampleEvent 1) \<noteq> oracleLabels exampleEvent 1
   \<and> sortLabels (rev (oracleLabels exampleEvent 1)) = sortLabels (oracleLabels exampleEvent 1)
   \<and> sorted (map Name (oracleLabels exampleEvent 1))
   \<and> sortLabels (oracleLabels exampleEvent 1) = oracleLabels exampleEvent 1"
proof -
  have d1: "distinct (map Name (rev (oracleLabels exampleEvent 1)))"
    by (simp add: oracleLabels_def)
  have d2: "distinct (map Name (oracleLabels exampleEvent 1))"
    by (simp add: oracleLabels_def)
  have s: "set (rev (oracleLabels exampleEvent 1)) = set (oracleLabels exampleEvent 1)"
    by simp
  have n: "rev (oracleLabels exampleEvent 1) \<noteq> oracleLabels exampleEvent 1"
    by (simp add: oracleLabels_def)
  have o: "sorted (map Name (oracleLabels exampleEvent 1))"
    by (simp add: oracleLabels_def)
  have d3: "set (oracleLabels exampleEvent 1) = set (oracleLabels exampleEvent 1)" by simp
  show ?thesis
    using sortLabels_canonical [OF d1 d2 s] sortLabels_canonical [OF d2 d2 d3] d1 d2 s n o by simp
qed

text \<open>
  C10. The calls of one iteration: the value of the \<open>oracle_value\<close> sample is the
  \<open>float64\<close> of \<open>Int64\<close> of the observed value, and the \<open>psr_value\<close> sample, when the
  iteration gets to it, has the timestamp of the \<open>oracle_value\<close> sample, read once.
  \<open>Int64\<close> is the low 64 bits of the value in two's complement: the value itself
  exactly when it is in the range of \<open>int64\<close>.
\<close>

theorem oracle_value_is_float64_of_Int64:
  "calls (snd (loopBody env ev i (reqId, valAct) a)) =
     calls a @
     AppendCall (oracleLabels ev reqId) (FromTime (Now env (2 * i))) (float64 env (Int64 valAct)) #
     (if AppendErr env (2 * i) \<noteq> None then []
      else GetValueCall (Int64 reqId) (Now env (2 * i + 1) - reorgEventWait) #
        (case PsrValue env (Int64 reqId) (Now env (2 * i + 1) - reorgEventWait) of
           Inl e \<Rightarrow> []
         | Inr valExp \<Rightarrow> [AppendCall (psrLabels reqId) (FromTime (Now env (2 * i))) valExp]))
   \<and> Int64 valAct = word_of_int valAct
   \<and> (sint (Int64 valAct) = valAct) = (- (2 ^ 63) \<le> valAct \<and> valAct < 2 ^ 63)
   \<and> sint (Int64 (2 ^ 64 + 5)) = 5"
proof -
  have "sint (Int64 (2 ^ 64 + 5)) = 5" by (simp add: Int64_def)
  then show ?thesis
    by (simp add: loopBody_calls obsCalls_def psrTime_def Int64_word_of_int [symmetric]
        sint_Int64_in_range split: sum.splits)
qed

section \<open>The mining loop: properties\<close>

lemma loopStep_when_returned: "returned mgr \<Longrightarrow> loopStep mgr sel = mgr"
  by (simp add: loopStep_def)

lemma loopStep_returned: "returned mgr \<Longrightarrow> foldl loopStep mgr sels = mgr"
  by (induction sels) (simp_all add: loopStep_when_returned)

lemma loopStep_cases:
  "\<not> returned mgr \<Longrightarrow> loopStep mgr fromExitCh = mgr\<lparr>input := input mgr @ [None]\<rparr>"
  "\<not> returned mgr \<Longrightarrow> loopStep mgr (fromOutput None) = mgr\<lparr>Running := False, returned := True\<rparr>"
  "\<not> returned mgr \<Longrightarrow> loopStep mgr (fromOutput (Some r)) =
      mgr\<lparr>handled := handled mgr @ [(Challenge (Work r), Nonce r)]\<rparr>"
  "\<not> returned mgr \<Longrightarrow> loopStep mgr (fromTicker challenge) = sendWork mgr challenge"
  by (simp_all add: loopStep_def)

lemma sendWork_fields:
  "returned (sendWork mgr challenge) = returned mgr
   \<and> handled (sendWork mgr challenge) = handled mgr
   \<and> Running (sendWork mgr challenge) = Running mgr"
  by (simp add: sendWork_def Int63_def split: option.splits)

lemma handled_foldl:
  "\<not> returned mgr \<Longrightarrow> handled (foldl loopStep mgr sels) = handled mgr @ solutions sels"
proof (induction sels arbitrary: mgr rule: solutions.induct)
  case 1
  then show ?case by simp
next
  case (2 sels)
  then show ?case by (simp add: loopStep_cases loopStep_returned)
next
  case (3 r sels)
  then show ?case by (simp add: loopStep_cases)
next
  case (4 sels)
  then show ?case by (simp add: loopStep_cases)
next
  case (5 challenge sels)
  then show ?case by (simp add: loopStep_cases sendWork_fields)
qed

lemma returned_foldl:
  "\<not> returned mgr \<Longrightarrow> returned (foldl loopStep mgr sels) = (fromOutput None \<in> set sels)"
proof (induction sels arbitrary: mgr rule: solutions.induct)
  case 1
  then show ?case by simp
next
  case (2 sels)
  then show ?case by (simp add: loopStep_cases loopStep_returned)
next
  case (3 r sels)
  then show ?case by (simp add: loopStep_cases)
next
  case (4 sels)
  then show ?case by (simp add: loopStep_cases)
next
  case (5 challenge sels)
  then show ?case by (simp add: loopStep_cases sendWork_fields)
qed

lemma Running_foldl:
  "returned (foldl loopStep mgr sels) \<Longrightarrow> \<not> returned mgr \<Longrightarrow> \<not> Running (foldl loopStep mgr sels)"
proof (induction sels arbitrary: mgr rule: solutions.induct)
  case 1
  then show ?case by simp
next
  case (2 sels)
  then show ?case by (simp add: loopStep_cases loopStep_returned)
next
  case (3 r sels)
  then show ?case by (simp add: loopStep_cases)
next
  case (4 sels)
  then show ?case by (simp add: loopStep_cases)
next
  case (5 challenge sels)
  then show ?case by (simp add: loopStep_cases sendWork_fields)
qed

text \<open>
  C7. \<open>sendWork\<close> with no update from the tasker leaves the manager as it is: nothing
  is sent and the random source is not read. With an update it sends exactly one
  \<open>Work\<close> with that challenge, with \<open>Start\<close> the next value of the random source,
  below \<open>2 ^ 63\<close>, and with \<open>N\<close> the constant \<open>math.MaxInt64\<close>; the source moves on by
  one, so the next call reads the next value.
\<close>

theorem sendWork_pushes_one_fresh_Work:
  "sendWork mgr None = mgr
   \<and> sendWork mgr (Some c) =
       mgr\<lparr>input := input mgr @
               [Some \<lparr>Challenge = c, Start = take_bit 63 (stream (rand mgr) (drawn (rand mgr))),
                      N = MaxInt64\<rparr>],
            rand := (rand mgr)\<lparr>drawn := Suc (drawn (rand mgr))\<rparr>\<rparr>
   \<and> input (sendWork (sendWork mgr (Some c)) (Some c')) =
       input mgr @
         [Some \<lparr>Challenge = c, Start = take_bit 63 (stream (rand mgr) (drawn (rand mgr))),
                N = MaxInt64\<rparr>,
          Some \<lparr>Challenge = c', Start = take_bit 63 (stream (rand mgr) (Suc (drawn (rand mgr)))),
                N = MaxInt64\<rparr>]
   \<and> unat (take_bit 63 (stream (rand mgr) (drawn (rand mgr)))) < 2 ^ 63
   \<and> unat MaxInt64 = 2 ^ 63 - 1"
proof -
  have "take_bit 63 (unat (stream (rand mgr) (drawn (rand mgr)))) < (2 :: nat) ^ 63"
    by (rule take_bit_nat_less_exp)
  then have "unat (take_bit 63 (stream (rand mgr) (drawn (rand mgr)))) < 2 ^ 63"
    by (simp add: unsigned_take_bit_eq)
  moreover have "unat MaxInt64 = 2 ^ 63 - 1"
    by (simp add: MaxInt64_def)
  ultimately show ?thesis
    by (simp add: sendWork_def Int63_def)
qed

text \<open>
  C6, as the code has it. After the case of the exit channel the loop sends \<open>nil\<close> on
  \<open>input\<close> and goes on; a solution that the pool delivers after that and before its
  \<open>nil\<close> result is handed to the solution handler like any other.
\<close>

theorem solution_is_submitted_after_shutdown:
  "handled (MiningMgr_Start exampleMgr (Some ''c1'') [fromExitCh]) = []
   \<and> input (MiningMgr_Start exampleMgr (Some ''c1'') [fromExitCh])
      = [Some \<lparr>Challenge = ''c1'', Start = 100, N = MaxInt64\<rparr>, None]
   \<and> handled (MiningMgr_Start exampleMgr (Some ''c1'')
        [fromExitCh,
         fromOutput (Some \<lparr>Work = \<lparr>Challenge = ''c1'', Start = 100, N = MaxInt64\<rparr>, Nonce = ''7''\<rparr>)])
      = [(''c1'', ''7'')]"
  by code_simp

text \<open>
  C6, amended. The case of the exit channel sends \<open>nil\<close> on \<open>input\<close> and nothing
  else; the goroutine has returned exactly when a \<open>nil\<close> result was among the cases
  taken, and then \<open>Running\<close> is false; the solutions handed to the solution handler
  are those of all the results before the first \<open>nil\<close> result, whether before or
  after the exit signal.
\<close>

theorem shutdown_is_cooperative:
  assumes "\<not> returned mgr"
  shows "loopStep mgr fromExitCh = mgr\<lparr>input := input mgr @ [None]\<rparr>
    \<and> returned (MiningMgr_Start mgr challenge sels) = (fromOutput None \<in> set sels)
    \<and> (returned (MiningMgr_Start mgr challenge sels) \<longrightarrow> \<not> Running (MiningMgr_Start mgr challenge sels))
    \<and> handled (MiningMgr_Start mgr challenge sels) = handled mgr @ solutions sels"
  using assms
  by (simp add: MiningMgr_Start_def returned_foldl handled_foldl Running_foldl sendWork_fields loopStep_cases)

theorem shutdown_is_cooperative_witness:
  "\<not> returned exampleMgr
   \<and> input (MiningMgr_Start exampleMgr None
        [fromExitCh,
         fromOutput (Some \<lparr>Work = \<lparr>Challenge = ''c1'', Start = 0, N = MaxInt64\<rparr>, Nonce = ''7''\<rparr>),
         fromOutput None,
         fromOutput (Some \<lparr>Work = \<lparr>Challenge = ''c2'', Start = 0, N = MaxInt64\<rparr>, Nonce = ''8''\<rparr>)])
      = [None]
   \<and> returned (MiningMgr_Start exampleMgr None
        [fromExitCh,
         fromOutput (Some \<lparr>Work = \<lparr>Challenge = ''c1'', Start = 0, N = MaxInt64\<rparr>, Nonce = ''7''\<rparr>),
         fromOutput None,
         fromOutput (Some \<lparr>Work = \<lparr>Challenge = ''c2'', Start = 0, N = MaxInt64\<rparr>, Nonce = ''8''\<rparr>)])
   \<and> \<not> Running (MiningMgr_Start exampleMgr None
        [fromExitCh,
         fromOutput (Some \<lparr>Work = \<lparr>Challenge = ''c1'', Start = 0, N = MaxInt64\<rparr>, Nonce = ''7''\<rparr>),
         fromOutput None,
         fromOutput (Some \<lparr>Work = \<lparr>Challenge = ''c2'', Start = 0, N = MaxInt64\<rparr>, Nonce = ''8''\<rparr>)])
   \<and> handled (MiningMgr_Start exampleMgr None
        [fromExitCh,
         fromOutput (Some \<lparr>Work = \<lparr>Challenge = ''c1'', Start = 0, N = MaxInt64\<rparr>, Nonce = ''7''\<rparr>),
         fromOutput None,
         fromOutput (Some \<lparr>Work = \<lparr>Challenge = ''c2'', Start = 0, N = MaxInt64\<rparr>, Nonce = ''8''\<rparr>)])
      = [(''c1'', ''7'')]"
proof -
  have n: "\<not> returned exampleMgr"
    by (simp add: exampleMgr_def CreateMiningManager_def)
  have i: "input (MiningMgr_Start exampleMgr None
        [fromExitCh,
         fromOutput (Some \<lparr>Work = \<lparr>Challenge = ''c1'', Start = 0, N = MaxInt64\<rparr>, Nonce = ''7''\<rparr>),
         fromOutput None,
         fromOutput (Some \<lparr>Work = \<lparr>Challenge = ''c2'', Start = 0, N = MaxInt64\<rparr>, Nonce = ''8''\<rparr>)])
      = [None]"
    by code_simp
  have h: "handled exampleMgr = []"
    by (simp add: exampleMgr_def CreateMiningManager_def)
  show ?thesis
    using shutdown_is_cooperative [OF n, of None
        "[fromExitCh,
         fromOutput (Some \<lparr>Work = \<lparr>Challenge = ''c1'', Start = 0, N = MaxInt64\<rparr>, Nonce = ''7''\<rparr>),
         fromOutput None,
         fromOutput (Some \<lparr>Work = \<lparr>Challenge = ''c2'', Start = 0, N = MaxInt64\<rparr>, Nonce = ''8''\<rparr>)]"]
      n i h
    by simp
qed


section \<open>The dispute tracker: properties\<close>

lemma length_cancel [simp]: "length (cancel i ts) = length ts"
  by (simp add: cancel_def)

lemma length_setPc [simp]: "length (setPc i p ts) = length ts"
  by (simp add: setPc_def)

lemma taskEvent_cancel [simp]: "taskEvent (cancel i ts ! j) = taskEvent (ts ! j)"
  by (cases "i = j") (simp_all add: cancel_def)

lemma taskEvent_setPc [simp]: "taskEvent (setPc i p ts ! j) = taskEvent (ts ! j)"
  by (cases "i = j") (simp_all add: setPc_def)

lemma pc_cancel [simp]: "pc (cancel i ts ! j) = pc (ts ! j)"
  by (cases "i = j") (simp_all add: cancel_def)

lemma pc_setPc: "j < length ts \<Longrightarrow> pc (setPc i p ts ! j) = (if i = j then p else pc (ts ! j))"
  by (simp add: setPc_def)

lemma ctxDone_setPc [simp]: "ctxDone (setPc i p ts ! j) = ctxDone (ts ! j)"
  by (cases "i = j") (simp_all add: setPc_def)

lemma ctxDone_cancel: "j < length ts \<Longrightarrow> ctxDone (cancel i ts ! j) = (i = j \<or> ctxDone (ts ! j))"
  by (auto simp: cancel_def nth_list_update)

lemma removePending_fields [simp]:
  "length (tasks (removePending self ev)) = length (tasks self)"
  "taskEvent (tasks (removePending self ev) ! j) = taskEvent (tasks self ! j)"
  "pc (tasks (removePending self ev) ! j) = pc (tasks self ! j)"
  "appends (removePending self ev) = appends self"
  "tsDB (removePending self ev) = tsDB self"
  "phase (removePending self ev) = phase self"
  "closed (removePending self ev) = closed self"
  "waits (removePending self ev) = waits self"
  "pendingAppend (removePending self ev) = (pendingAppend self)(TxHash ev := None)"
  by (auto simp: removePending_def split: option.splits)

lemma appendsOf_removePending [simp]: "appendsOf (removePending self ev) i = appendsOf self i"
  by (simp add: appendsOf_def)

lemma consistent_New: "consistent (New db)"
  by (simp add: consistent_def New_def appendsOf_def)

lemma consistent_removePending: "consistent self \<Longrightarrow> consistent (removePending self ev)"
  by (simp add: consistent_def)

lemma consistent_appendsOf_fresh:
  "consistent self \<Longrightarrow> appendsOf self (length (tasks self)) = []"
  by (auto simp: consistent_def appendsOf_def filter_empty_conv)

lemma consistent_onEvent:
  assumes "consistent self"
  shows "consistent (onEvent self ev)"
proof -
  define self1 where "self1 = (if Removed ev then removePending self ev else self)"
  have c1: "consistent self1"
    using assms by (simp add: self1_def consistent_removePending)
  have e: "onEvent self ev = self1\<lparr>pendingAppend := (pendingAppend self1)(TxHash ev \<mapsto> length (tasks self1)),
      tasks := tasks self1 @ [\<lparr>taskEvent = ev, ctxDone = False, pc = Waiting\<rparr>]\<rparr>"
    by (simp add: onEvent_def self1_def Let_def)
  have f: "appendsOf self1 (length (tasks self1)) = []"
    using c1 by (rule consistent_appendsOf_fresh)
  show ?thesis
    unfolding e using c1 f
    by (auto simp: consistent_def appendsOf_def nth_append less_Suc_eq)
qed

lemma consistent_upd [simp]:
  "consistent (self\<lparr>closed := c\<rparr>) = consistent self"
  "consistent (self\<lparr>phase := ph\<rparr>) = consistent self"
  "consistent (self\<lparr>logged := l\<rparr>) = consistent self"
  "consistent (self\<lparr>waits := w\<rparr>) = consistent self"
  by (simp_all add: consistent_def appendsOf_def)

lemma consistent_TickerC:
  assumes "consistent self" and "i < length (tasks self)" and "pc (tasks self ! i) = Waiting"
  shows "consistent (self\<lparr>tsDB := db', appends := appends self @ [(i, cs)], logged := l,
            tasks := setPc i Appended (tasks self)\<rparr>)"
  using assms by (auto simp: consistent_def appendsOf_def pc_setPc)

lemma consistent_setPc_Finished:
  assumes "consistent self" and "i < length (tasks self)" and "pc (tasks self ! i) = Appended"
  shows "consistent (self\<lparr>tasks := setPc i Finished (tasks self)\<rparr>)"
  using assms by (auto simp: consistent_def appendsOf_def pc_setPc)

lemma consistent_setPc_Canceled:
  assumes "consistent self" and "i < length (tasks self)" and "pc (tasks self ! i) = Waiting"
  shows "consistent (self\<lparr>tasks := setPc i Canceled (tasks self)\<rparr>)"
  using assms by (auto simp: consistent_def appendsOf_def pc_setPc)

lemma consistent_step:
  assumes "consistent self" and "step self x = Some self'"
  shows "consistent self'"
proof (cases x)
  case Stop
  then show ?thesis using assms by auto
next
  case CtxDone
  then show ?thesis using assms by (auto split: if_splits)
next
  case SubscribeFailed
  then show ?thesis using assms by (auto split: if_splits)
next
  case Subscribed
  then show ?thesis using assms by (auto split: if_splits)
next
  case (SubErr err)
  then show ?thesis using assms by (auto split: if_splits)
next
  case (Event ev)
  then show ?thesis using assms by (auto split: if_splits simp: consistent_onEvent)
next
  case (TickerC i env)
  then show ?thesis
    using assms by (auto split: if_splits prod.splits simp: consistent_TickerC)
next
  case (RemovePending i)
  then show ?thesis
    using assms consistent_setPc_Finished [of "removePending self (taskEvent (tasks self ! i))" i]
    by (auto split: if_splits simp: Let_def consistent_removePending)
next
  case (TaskCtxDone i)
  then show ?thesis
    using assms by (auto split: if_splits simp: consistent_setPc_Canceled)
qed

lemma consistent_run: "consistent self \<Longrightarrow> run self xs = Some self' \<Longrightarrow> consistent self'"
proof (induction xs arbitrary: self)
  case Nil
  then show ?case by simp
next
  case (Cons x xs)
  then show ?case by (auto split: option.splits dest: consistent_step)
qed

lemma run_append: "run self (xs @ ys) = (case run self xs of None \<Rightarrow> None | Some s \<Rightarrow> run s ys)"
  by (induction xs arbitrary: self) (auto split: option.splits)

text \<open>
  C2, amended. In every state the tracker reaches, a cancel function in the map
  is that of a goroutine started for that key, and every delayed-commit goroutine
  has made exactly one transaction if it took the case of its ticker and none
  otherwise: it cannot take that case once its context is done, nor a second time.
\<close>

theorem each_delayed_commit_fires_at_most_once:
  assumes "run (New db) xs = Some self"
  shows "(\<forall>k i. pendingAppend self k = Some i \<longrightarrow>
            i < length (tasks self) \<and> TxHash (taskEvent (tasks self ! i)) = k)
    \<and> (\<forall>i < length (tasks self).
          length (appendsOf self i) =
            (if pc (tasks self ! i) = Appended \<or> pc (tasks self ! i) = Finished then 1 else 0)
          \<and> (taskDone self i \<longrightarrow> step self (TickerC i env) = None)
          \<and> (pc (tasks self ! i) \<noteq> Waiting \<longrightarrow> step self (TickerC i env) = None))"
proof -
  have "consistent self"
    using consistent_New assms by (rule consistent_run)
  then show ?thesis
    by (auto simp: consistent_def)
qed

lemma run_Some_of_map_option: "map_option f (run self xs) = Some y \<Longrightarrow> \<exists>s. run self xs = Some s \<and> f s = y"
  by (cases "run self xs") auto

theorem each_delayed_commit_fires_at_most_once_witness:
  "\<exists>self. run (New ([] :: int Sample list))
       [Subscribed, Event exampleEvent, Event (exampleEvent\<lparr>TxHash := ''0xdef''\<rparr>), Stop,
        TickerC 0 exampleEnv] = None
     \<and> run (New ([] :: int Sample list))
       [Subscribed, Event exampleEvent, Event (exampleEvent\<lparr>TxHash := ''0xdef''\<rparr>),
        TickerC 0 exampleEnv, Stop, TaskCtxDone 1] = Some self
     \<and> pendingAppend self ''0xdef'' = Some 1
     \<and> 1 < length (tasks self) \<and> TxHash (taskEvent (tasks self ! 1)) = ''0xdef''
     \<and> pc (tasks self ! 0) = Appended \<and> length (appendsOf self 0) = 1
     \<and> pc (tasks self ! 1) = Canceled \<and> length (appendsOf self 1) = 0
     \<and> taskDone self 1 \<and> step self (TickerC 1 exampleEnv) = None
     \<and> step self (TickerC 0 exampleEnv) = None"
proof -
  let ?xs = "[Subscribed, Event exampleEvent, Event (exampleEvent\<lparr>TxHash := ''0xdef''\<rparr>),
        TickerC 0 exampleEnv, Stop, TaskCtxDone 1]"
  have "map_option (\<lambda>s. (pendingAppend s ''0xdef'', length (tasks s), pc (tasks s ! 0), pc (tasks s ! 1), closed s))
      (run (New ([] :: int Sample list)) ?xs) = Some (Some 1, 2, Appended, Canceled, True)"
    by code_simp
  then obtain self where r: "run (New ([] :: int Sample list)) ?xs = Some self"
    and f: "pendingAppend self ''0xdef'' = Some 1" "length (tasks self) = 2"
      "pc (tasks self ! 0) = Appended" "pc (tasks self ! 1) = Canceled" "closed self"
    using run_Some_of_map_option by fastforce
  have n: "map_option tsDB (run (New ([] :: int Sample list))
       [Subscribed, Event exampleEvent, Event (exampleEvent\<lparr>TxHash := ''0xdef''\<rparr>), Stop,
        TickerC 0 exampleEnv]) = None"
    by code_simp
  have t: "taskDone self 1" using f by (simp add: taskDone_def)
  note th = each_delayed_commit_fires_at_most_once [OF r, of exampleEnv]
  have a: "1 < length (tasks self) \<and> TxHash (taskEvent (tasks self ! 1)) = ''0xdef''"
    using th f(1) by blast
  have b: "\<And>i. i < length (tasks self) \<Longrightarrow>
          length (appendsOf self i) =
            (if pc (tasks self ! i) = Appended \<or> pc (tasks self ! i) = Finished then 1 else 0)
          \<and> (taskDone self i \<longrightarrow> step self (TickerC i exampleEnv) = None)
          \<and> (pc (tasks self ! i) \<noteq> Waiting \<longrightarrow> step self (TickerC i exampleEnv) = None)"
    using th by blast
  have b0: "length (appendsOf self 0) = 1 \<and> step self (TickerC 0 exampleEnv) = None"
    using b [of 0] f by simp
  have b1: "length (appendsOf self 1) = 0 \<and> step self (TickerC 1 exampleEnv) = None"
    using b [of 1] f t by simp
  have n': "run (New ([] :: int Sample list))
       [Subscribed, Event exampleEvent, Event (exampleEvent\<lparr>TxHash := ''0xdef''\<rparr>), Stop,
        TickerC 0 exampleEnv] = None"
    using n by (simp only: option.map_disc_iff)
  show ?thesis
    using r f a b0 b1 n' t by blast
qed

text \<open>
  C2, as the code has it. The same key received again after its commit is
  committed again: two transactions for one key. Received again before the commit,
  it has two goroutines waiting, the map holding the cancel function of the second
  only.
\<close>

theorem same_key_is_written_twice:
  "map_option (\<lambda>s. (map fst (appendsFor s ''0xabc''),
                     map (\<lambda>p. filter isResolution (snd p)) (appendsFor s ''0xabc''),
                     length (tsDB s)))
     (run (New ([] :: int Sample list))
        [Subscribed, Event exampleEvent, TickerC 0 exampleEnv, RemovePending 0,
         Event exampleEvent, TickerC 1 exampleEnv])
   = Some ([0, 1], [[CommitCall], [CommitCall]], 8)
   \<and> map_option (\<lambda>s. (tasks s, pendingAppend s ''0xabc''))
     (run (New ([] :: int Sample list)) [Subscribed, Event exampleEvent, Event exampleEvent])
   = Some ([\<lparr>taskEvent = exampleEvent, ctxDone = False, pc = Waiting\<rparr>,
            \<lparr>taskEvent = exampleEvent, ctxDone = False, pc = Waiting\<rparr>], Some 1)"
  by code_simp

text \<open>
  C1. The code at an event followed by its removal: \<open>removePending\<close> cancels the
  goroutine of the event and deletes its entry, and then, there being no
  \<open>continue\<close>, the removed event gets an entry and a goroutine of its own, which
  writes the samples of the removed event when its ticker fires.
\<close>

theorem removed_event_is_scheduled_and_written:
  "map_option (\<lambda>s. (pendingAppend s ''0xabc'', tasks s))
     (run (New ([] :: int Sample list))
        [Subscribed, Event exampleEvent, Event (exampleEvent\<lparr>Removed := True\<rparr>)])
   = Some (Some 1, [\<lparr>taskEvent = exampleEvent, ctxDone = True, pc = Waiting\<rparr>,
                    \<lparr>taskEvent = exampleEvent\<lparr>Removed := True\<rparr>, ctxDone = False, pc = Waiting\<rparr>])
   \<and> map_option (\<lambda>s. (map fst (appendsFor s ''0xabc''), length (tsDB s), pendingAppend s ''0xabc''))
     (run (New ([] :: int Sample list))
        [Subscribed, Event exampleEvent, Event (exampleEvent\<lparr>Removed := True\<rparr>), TaskCtxDone 0,
         TickerC 1 exampleEnv, RemovePending 1])
   = Some ([1], 4, None)"
  by code_simp

lemma onEvent_fields:
  "length (tasks (onEvent self ev)) = Suc (length (tasks self))"
  "j < length (tasks self) \<Longrightarrow> taskEvent (tasks (onEvent self ev) ! j) = taskEvent (tasks self ! j)"
  "j < length (tasks self) \<Longrightarrow> pc (tasks (onEvent self ev) ! j) = pc (tasks self ! j)"
  "appends (onEvent self ev) = appends self"
  "tsDB (onEvent self ev) = tsDB self"
  "closed (onEvent self ev) = closed self"
  "phase (onEvent self ev) = phase self"
  "waits (onEvent self ev) = waits self"
  by (simp_all add: onEvent_def Let_def nth_append)






lemma closed_step: "step self x = Some self' \<Longrightarrow> closed self \<Longrightarrow> closed self'"
  by (cases x) (auto split: if_splits prod.splits simp: onEvent_fields Let_def)

lemma Returned_step:
  "step self x = Some self' \<Longrightarrow> phase self \<noteq> Returned \<Longrightarrow> phase self' = Returned
     \<Longrightarrow> x = CtxDone \<and> closed self'"
  by (cases x) (auto split: if_splits prod.splits simp: onEvent_fields Let_def)

lemma closed_run: "run self xs = Some self' \<Longrightarrow> closed self \<Longrightarrow> closed self'"
proof (induction xs arbitrary: self)
  case Nil
  then show ?case by simp
next
  case (Cons x xs)
  then show ?case by (auto split: option.splits dest: closed_step)
qed

lemma Returned_run:
  "run self xs = Some self' \<Longrightarrow> phase self \<noteq> Returned \<Longrightarrow> phase self' = Returned
     \<Longrightarrow> CtxDone \<in> set xs \<and> closed self'"
proof (induction xs arbitrary: self)
  case Nil
  then show ?case by simp
next
  case (Cons x xs)
  from Cons.prems(1) obtain s where s: "step self x = Some s" and r: "run s xs = Some self'"
    by (auto split: option.splits)
  show ?case
  proof (cases "phase s = Returned")
    case True
    then have "x = CtxDone \<and> closed s" using Returned_step [OF s Cons.prems(2)] by simp
    then show ?thesis using closed_run [OF r] by simp
  next
    case False
    then show ?thesis using Cons.IH [OF r False Cons.prems(3)] by simp
  qed
qed

lemma retry_run:
  assumes "\<not> closed self" and "phase self = Subscribing \<or> phase self = Resubscribing"
  shows "\<exists>self'. run self (replicate n SubscribeFailed) = Some self'
     \<and> phase self' = phase self \<and> \<not> closed self'
     \<and> waits self' = waits self @ replicate n Second
     \<and> tasks self' = tasks self \<and> tsDB self' = tsDB self"
  using assms
proof (induction n arbitrary: self)
  case 0
  then show ?case by simp
next
  case (Suc n)
  obtain s where s: "step self SubscribeFailed = Some s" "phase s = phase self" "\<not> closed s"
    "waits s = waits self @ [Second]" "tasks s = tasks self" "tsDB s = tsDB self"
    using Suc.prems by auto
  obtain self' where "run s (replicate n SubscribeFailed) = Some self'
     \<and> phase self' = phase s \<and> \<not> closed self'
     \<and> waits self' = waits s @ replicate n Second
     \<and> tasks self' = tasks s \<and> tsDB self' = tsDB s"
    using Suc.IH [of s] s Suc.prems by auto
  then show ?case using s by (auto simp: replicate_append_same simp del: step.simps)
qed

text \<open>
  C8. \<open>Start\<close> returns only by the case \<open>self.ctx.Done()\<close>, which needs the context
  cancelled. A subscribing loop goes on after any number \<open>n\<close> of failures, each
  followed by one receive from the ticker of period \<open>time.Second\<close>, and can still
  subscribe; an error, or the end, of the subscription leads to subscribing again.
\<close>

theorem subscription_is_retried_until_cancelled:
  "(run self xs = Some self' \<and> phase self \<noteq> Returned \<and> phase self' = Returned
      \<longrightarrow> CtxDone \<in> set xs \<and> closed self')
   \<and> ((step self CtxDone \<noteq> None) = (closed self \<and> phase self \<noteq> Returned))
   \<and> (\<not> closed self \<and> (phase self = Subscribing \<or> phase self = Resubscribing) \<longrightarrow>
        (\<exists>s. run self (replicate n SubscribeFailed) = Some s
           \<and> phase s = phase self \<and> \<not> closed s
           \<and> waits s = waits self @ replicate n Second
           \<and> map_option phase (step s Subscribed) = Some Active))
   \<and> (phase self = Active \<longrightarrow> map_option phase (step self (SubErr err)) = Some Resubscribing)"
proof -
  have a: "run self xs = Some self' \<and> phase self \<noteq> Returned \<and> phase self' = Returned
      \<longrightarrow> CtxDone \<in> set xs \<and> closed self'"
    using Returned_run [of self xs self'] by blast
  have b: "(step self CtxDone \<noteq> None) = (closed self \<and> phase self \<noteq> Returned)"
    by simp
  have c: "\<not> closed self \<and> (phase self = Subscribing \<or> phase self = Resubscribing) \<longrightarrow>
        (\<exists>s. run self (replicate n SubscribeFailed) = Some s
           \<and> phase s = phase self \<and> \<not> closed s
           \<and> waits s = waits self @ replicate n Second
           \<and> map_option phase (step s Subscribed) = Some Active)"
  proof
    assume h: "\<not> closed self \<and> (phase self = Subscribing \<or> phase self = Resubscribing)"
    then obtain s where s: "run self (replicate n SubscribeFailed) = Some s"
       "phase s = phase self" "\<not> closed s" "waits s = waits self @ replicate n Second"
      using retry_run [of self n] by blast
    have "map_option phase (step s Subscribed) = Some Active"
      using s h by auto
    then show "\<exists>s. run self (replicate n SubscribeFailed) = Some s
           \<and> phase s = phase self \<and> \<not> closed s
           \<and> waits s = waits self @ replicate n Second
           \<and> map_option phase (step s Subscribed) = Some Active"
      using s by blast
  qed
  have d: "phase self = Active \<longrightarrow> map_option phase (step self (SubErr err)) = Some Resubscribing"
    by simp
  show ?thesis using a b c d by blast
qed

theorem subscription_is_retried_until_cancelled_witness:
  "\<exists>s s'.
     \<not> closed (New ([] :: int Sample list)) \<and> phase (New ([] :: int Sample list)) = Subscribing
     \<and> run (New ([] :: int Sample list)) (replicate 3 SubscribeFailed) = Some s
     \<and> phase s = Subscribing \<and> \<not> closed s \<and> waits s = [Second, Second, Second]
     \<and> map_option phase (step s Subscribed) = Some Active
     \<and> run (New ([] :: int Sample list))
          [SubscribeFailed, Subscribed, SubErr None, SubscribeFailed, Stop, CtxDone] = Some s'
     \<and> phase s' = Returned \<and> closed s'"
proof -
  let ?xs = "[SubscribeFailed, Subscribed, SubErr None, SubscribeFailed, Stop, CtxDone] :: int occurrence list"
  have "map_option phase (run (New ([] :: int Sample list)) ?xs) = Some Returned"
    by code_simp
  then obtain s' where r: "run (New ([] :: int Sample list)) ?xs = Some s'" and p: "phase s' = Returned"
    using run_Some_of_map_option by fastforce
  have n: "\<not> closed (New ([] :: int Sample list))" "phase (New ([] :: int Sample list)) = Subscribing"
    by (simp_all add: New_def)
  note th = subscription_is_retried_until_cancelled [of "New ([] :: int Sample list)" ?xs s' 3 None]
  have c: "closed s'" using th r p n by simp
  obtain s where s: "run (New ([] :: int Sample list)) (replicate 3 SubscribeFailed) = Some s"
      "phase s = phase (New ([] :: int Sample list))" "\<not> closed s"
      "waits s = waits (New ([] :: int Sample list)) @ replicate 3 Second"
      "map_option phase (step s Subscribed) = Some Active"
    using th n by blast
  have w: "waits s = [Second, Second, Second]" using s(4) by (simp add: New_def numeral_3_eq_3)
  show ?thesis using n s(1,3,5) s(2) w r p c by (auto simp del: step.simps run.simps)
qed

lemma step_keeps_cancelled:
  assumes "step self x = Some self'" and "i < length (tasks self)"
    and "ctxDone (tasks self ! i)" and "pc (tasks self ! i) = Waiting \<or> pc (tasks self ! i) = Canceled"
    and "appendsOf self i = []"
  shows "i < length (tasks self') \<and> ctxDone (tasks self' ! i)
    \<and> (pc (tasks self' ! i) = Waiting \<or> pc (tasks self' ! i) = Canceled)
    \<and> appendsOf self' i = []"
proof (cases x)
  case Stop
  then show ?thesis using assms by (auto simp: appendsOf_def)
next
  case CtxDone
  then show ?thesis using assms by (auto simp: appendsOf_def split: if_splits)
next
  case SubscribeFailed
  then show ?thesis using assms by (auto simp: appendsOf_def split: if_splits)
next
  case Subscribed
  then show ?thesis using assms by (auto simp: appendsOf_def split: if_splits)
next
  case (SubErr err)
  then show ?thesis using assms by (auto simp: appendsOf_def split: if_splits)
next
  case (Event ev)
  have "ctxDone (tasks (onEvent self ev) ! i)"
    using assms(2,3) by (auto simp: onEvent_def Let_def nth_append removePending_def ctxDone_cancel
        split: option.splits)
  then show ?thesis using Event assms by (auto simp: appendsOf_def onEvent_fields split: if_splits)
next
  case (TickerC j env)
  then show ?thesis
    using assms by (auto simp: appendsOf_def pc_setPc taskDone_def split: if_splits prod.splits)
next
  case (RemovePending j)
  have "ctxDone (tasks (removePending self (taskEvent (tasks self ! j))) ! i)"
    using assms(2,3) by (auto simp: removePending_def ctxDone_cancel split: option.splits)
  then show ?thesis
    using RemovePending assms by (auto simp: appendsOf_def pc_setPc Let_def split: if_splits)
next
  case (TaskCtxDone j)
  then show ?thesis
    using assms by (auto simp: appendsOf_def pc_setPc split: if_splits)
qed

lemma run_keeps_cancelled:
  "run self ys = Some self' \<Longrightarrow> i < length (tasks self) \<Longrightarrow> ctxDone (tasks self ! i)
    \<Longrightarrow> pc (tasks self ! i) = Waiting \<or> pc (tasks self ! i) = Canceled
    \<Longrightarrow> appendsOf self i = []
    \<Longrightarrow> i < length (tasks self') \<and> ctxDone (tasks self' ! i)
      \<and> (pc (tasks self' ! i) = Waiting \<or> pc (tasks self' ! i) = Canceled)
      \<and> appendsOf self' i = []"
proof (induction ys arbitrary: self)
  case Nil
  then show ?case by simp
next
  case (Cons x xs)
  from Cons.prems(1) obtain s where s: "step self x = Some s" and r: "run s xs = Some self'"
    by (auto split: option.splits)
  have k: "i < length (tasks s) \<and> ctxDone (tasks s ! i)
    \<and> (pc (tasks s ! i) = Waiting \<or> pc (tasks s ! i) = Canceled) \<and> appendsOf s i = []"
    using step_keeps_cancelled [OF s Cons.prems(2) Cons.prems(3) Cons.prems(4) Cons.prems(5)] .
  show ?case using Cons.IH [OF r] k by simp
qed

text \<open>
  X1. What the removal of an event does to the goroutine that waits for that key:
  \<open>removePending\<close> sets its context done, and in no later state has that goroutine
  made a transaction, nor can it take the case of its ticker.
\<close>

theorem removed_event_cancels_pending_goroutine:
  assumes "run (New db) xs = Some self" and "phase self = Active" and "Removed ev"
    and "pendingAppend self (TxHash ev) = Some i" and "pc (tasks self ! i) = Waiting"
  shows "\<exists>s1. step self (Event ev) = Some s1
    \<and> TxHash (taskEvent (tasks self ! i)) = TxHash ev
    \<and> ctxDone (tasks s1 ! i)
    \<and> (\<forall>ys s2. run s1 ys = Some s2 \<longrightarrow>
          appendsOf s2 i = [] \<and> step s2 (TickerC i env) = None
          \<and> (pc (tasks s2 ! i) = Waiting \<or> pc (tasks s2 ! i) = Canceled))"
proof -
  have c: "consistent self"
    using consistent_New assms(1) by (rule consistent_run)
  have l: "i < length (tasks self)" and k: "TxHash (taskEvent (tasks self ! i)) = TxHash ev"
    using c assms(4) by (auto simp: consistent_def)
  have e: "appendsOf self i = []"
    using c l assms(5) by (auto simp: consistent_def)
  define s1 where "s1 = onEvent self ev"
  have st: "step self (Event ev) = Some s1" using assms(2) by (simp add: s1_def)
  have l1: "i < length (tasks s1)" using l by (simp add: s1_def onEvent_fields)
  have d1: "ctxDone (tasks s1 ! i)"
    using l assms(3,4) by (simp add: s1_def onEvent_def Let_def nth_append removePending_def ctxDone_cancel)
  have p1: "pc (tasks s1 ! i) = Waiting \<or> pc (tasks s1 ! i) = Canceled"
    using l assms(5) by (simp add: s1_def onEvent_fields)
  have e1: "appendsOf s1 i = []" using e by (simp add: s1_def appendsOf_def onEvent_fields)
  have later: "appendsOf s2 i = [] \<and> step s2 (TickerC i env) = None
          \<and> (pc (tasks s2 ! i) = Waiting \<or> pc (tasks s2 ! i) = Canceled)"
    if r: "run s1 ys = Some s2" for ys s2
  proof -
    have "i < length (tasks s2) \<and> ctxDone (tasks s2 ! i)
      \<and> (pc (tasks s2 ! i) = Waiting \<or> pc (tasks s2 ! i) = Canceled)
      \<and> appendsOf s2 i = []"
      using run_keeps_cancelled [OF r l1 d1 p1 e1] .
    then show ?thesis by (auto simp: taskDone_def)
  qed
  show ?thesis using st k d1 later by (auto simp del: step.simps)
qed

theorem removed_event_cancels_pending_goroutine_witness:
  "\<exists>self s1 s2.
     run (New ([] :: int Sample list)) [Subscribed, Event exampleEvent] = Some self
     \<and> phase self = Active \<and> Removed (exampleEvent\<lparr>Removed := True\<rparr>)
     \<and> pendingAppend self (TxHash (exampleEvent\<lparr>Removed := True\<rparr>)) = Some 0
     \<and> pc (tasks self ! 0) = Waiting
     \<and> step self (Event (exampleEvent\<lparr>Removed := True\<rparr>)) = Some s1
     \<and> ctxDone (tasks s1 ! 0)
     \<and> run s1 [TaskCtxDone 0] = Some s2
     \<and> appendsOf s2 0 = [] \<and> step s2 (TickerC 0 exampleEnv) = None
     \<and> pc (tasks s2 ! 0) = Canceled"
proof -
  let ?rm = "exampleEvent\<lparr>Removed := True\<rparr>"
  have "map_option (\<lambda>s. (phase s, pendingAppend s (TxHash ?rm), pc (tasks s ! 0)))
      (run (New ([] :: int Sample list)) [Subscribed, Event exampleEvent])
    = Some (Active, Some 0, Waiting)"
    by code_simp
  then obtain self where r: "run (New ([] :: int Sample list)) [Subscribed, Event exampleEvent] = Some self"
    and f: "phase self = Active" "pendingAppend self (TxHash ?rm) = Some 0" "pc (tasks self ! 0) = Waiting"
    using run_Some_of_map_option by fastforce
  have rm: "Removed ?rm" by simp
  obtain s1 where s1: "step self (Event ?rm) = Some s1" "ctxDone (tasks s1 ! 0)"
    and later: "\<forall>ys s2. run s1 ys = Some s2 \<longrightarrow>
          appendsOf s2 0 = [] \<and> step s2 (TickerC 0 exampleEnv) = None
          \<and> (pc (tasks s2 ! 0) = Waiting \<or> pc (tasks s2 ! 0) = Canceled)"
    using removed_event_cancels_pending_goroutine [OF r f(1) rm f(2) f(3), of exampleEnv] by blast
  have "map_option (\<lambda>s. pc (tasks s ! 0))
      (run (New ([] :: int Sample list)) ([Subscribed, Event exampleEvent] @ ([Event ?rm] @ [TaskCtxDone 0])))
    = Some Canceled"
    by code_simp
  then obtain s2 where r2: "run (New ([] :: int Sample list)) ([Subscribed, Event exampleEvent] @ ([Event ?rm] @ [TaskCtxDone 0])) = Some s2"
    and p2: "pc (tasks s2 ! 0) = Canceled"
    using run_Some_of_map_option by fastforce
  have a1: "run self [Event ?rm] = Some s1"
    using s1(1) by (simp del: step.simps)
  have r2': "run s1 [TaskCtxDone 0] = Some s2"
    using r2 by (simp only: run_append r a1 option.case)
  have "appendsOf s2 0 = [] \<and> step s2 (TickerC 0 exampleEnv) = None"
    using later r2' by blast
  then show ?thesis
    using r f rm s1 r2' p2 by (auto simp del: step.simps run.simps)
qed










end
